theory Spec2Isabelle
  imports Main
begin

section \<open>The entry repository over a document collection\<close>

text \<open>
  A shallow embedding of \<^verbatim>\<open>src/server/src/repositories/mongo/entry-repository.ts\<close>.
  The collection is passed explicitly and returned updated; the two values the source
  reads from its environment, \<^verbatim>\<open>currentTimestamp()\<close> and \<^verbatim>\<open>getRandomString(10)\<close>,
  are parameters of the operations that read them. Transient failures of the connection
  to the store are outside the model; the errors the store itself answers with are values.
\<close>

subsection \<open>Entries and documents\<close>

text \<open>
  The \<^verbatim>\<open>Field\<close> names of an entry. \<^verbatim>\<open>Descriptive\<close> stands for all the fields the
  repository never inspects (channel, title, ...).
\<close>

datatype field =
  Id | FirstSeen | LastSeen | IndexRequiredSince | IndexJob | IndexJobTimeout | Descriptive

text \<open>
  \<^verbatim>\<open>Entry\<close>. The three index fields are optional in the source type; \<open>None\<close> is an
  absent field. A stored document has the same fields, with \<^verbatim>\<open>id\<close> stored as \<^verbatim>\<open>_id\<close>
  (\<^verbatim>\<open>toMongoDocument\<close>), so one record type serves for both. Timestamps are integral
  milliseconds.
\<close>

record 'd entry =
  entryId :: string
  firstSeen :: int
  lastSeen :: int
  indexRequiredSince :: "int option"
  indexJob :: "string option"
  indexJobTimeout :: "int option"
  descriptive :: 'd

type_synonym 'd collection = "'d entry list"

text \<open>
  Errors the store answers with: a bulk write that holds no operation
  (\<^verbatim>\<open>Invalid Operation, no operations specified\<close>), an update whose operators address
  one path twice (\<^verbatim>\<open>ConflictingUpdateOperators\<close>, code 40: the update is not applied),
  and the error an unordered bulk write raises at its end when some of its operations
  were rejected.
\<close>

datatype error = InvalidOperation | ConflictingUpdateOperators | BulkWriteError

subsection \<open>The store's primitives\<close>

text \<open>
  \<^verbatim>\<open>updateOne(filter, update)\<close> without upsert changes the first document that matches
  the filter and nothing when none matches. The store promises no order among the
  matching documents; the model takes them in the order of the list.
\<close>

fun updateOne :: "('d entry \<Rightarrow> bool) \<Rightarrow> ('d entry \<Rightarrow> 'd entry) \<Rightarrow> 'd collection \<Rightarrow> 'd collection" where
  "updateOne flt upd [] = []"
| "updateOne flt upd (d # ds) = (if flt d then upd d # ds else d # updateOne flt upd ds)"

definition updateMany :: "('d entry \<Rightarrow> bool) \<Rightarrow> ('d entry \<Rightarrow> 'd entry) \<Rightarrow> 'd collection \<Rightarrow> 'd collection" where
  "updateMany flt upd c = map (\<lambda>d. if flt d then upd d else d) c"

definition loadManyByFilter :: "('d entry \<Rightarrow> bool) \<Rightarrow> 'd collection \<Rightarrow> 'd entry list" where
  "loadManyByFilter flt c = filter flt c"

text \<open>An ordered bulk write applies its operations one after the other.\<close>

fun applyOperations ::
  "(('d entry \<Rightarrow> bool) \<times> ('d entry \<Rightarrow> 'd entry)) list \<Rightarrow> 'd collection \<Rightarrow> 'd collection" where
  "applyOperations [] c = c"
| "applyOperations ((flt, upd) # ops) c = applyOperations ops (updateOne flt upd c)"

definition bulkWrite ::
  "(('d entry \<Rightarrow> bool) \<times> ('d entry \<Rightarrow> 'd entry)) list \<Rightarrow> 'd collection
     \<Rightarrow> (error + unit) \<times> 'd collection" where
  "bulkWrite operations c =
     (case operations of
        [] \<Rightarrow> (Inl InvalidOperation, c)
      | _ # _ \<Rightarrow> (Inr (), applyOperations operations c))"

subsection \<open>getIndexJob and setIndexJobFinished\<close>

text \<open>
  The filter of \<^verbatim>\<open>getIndexJob\<close>:
  \<^verbatim>\<open>{ $and: [ { indexRequiredSince: { $exists: true } },
             { $or: [ { indexJob: { $exists: false } },
                      { indexJobTimeout: { $lte: timestamp } } ] } ] }\<close>.
  \<^verbatim>\<open>$lte\<close> matches no document that lacks the field.
\<close>

definition getIndexJob_filter :: "int \<Rightarrow> 'd entry \<Rightarrow> bool" where
  "getIndexJob_filter timestamp d \<longleftrightarrow>
     indexRequiredSince d \<noteq> None \<and>
     (indexJob d = None \<or>
      (case indexJobTimeout d of None \<Rightarrow> False | Some t \<Rightarrow> t \<le> timestamp))"

text \<open>The update: \<^verbatim>\<open>{ $set: { indexJob, indexJobTimeout: timestamp + timeout } }\<close>.\<close>

definition getIndexJob_update :: "string \<Rightarrow> int \<Rightarrow> int \<Rightarrow> 'd entry \<Rightarrow> 'd entry" where
  "getIndexJob_update job timestamp timeout d =
     d\<lparr>indexJob := Some job, indexJobTimeout := Some (timestamp + timeout)\<rparr>"

record 'd index_job =
  jobId :: string
  entries :: "'d entry list"

text \<open>
  \<^verbatim>\<open>getIndexJob(count, timeout)\<close>; \<open>job\<close> is the string \<^verbatim>\<open>getRandomString(10)\<close> returned
  and \<open>timestamp\<close> the clock when the call read it.
\<close>

definition getIndexJob ::
  "nat \<Rightarrow> int \<Rightarrow> string \<Rightarrow> int \<Rightarrow> 'd collection \<Rightarrow> (error + 'd index_job) \<times> 'd collection" where
  "getIndexJob count timeout job timestamp c =
     (let operations =
            replicate count
              (getIndexJob_filter timestamp, getIndexJob_update job timestamp timeout)
      in case bulkWrite operations c of
           (Inl e, c') \<Rightarrow> (Inl e, c')
         | (Inr _, c') \<Rightarrow>
             (Inr \<lparr>jobId = job,
                   entries = loadManyByFilter (\<lambda>d. indexJob d = Some job) c'\<rparr>, c'))"

text \<open>
  \<^verbatim>\<open>setIndexJobFinished(jobId)\<close>: filter \<^verbatim>\<open>{ indexJob: jobId }\<close>, update
  \<^verbatim>\<open>{ $unset: { indexRequiredSince, indexJobTimeout, indexJob } }\<close>, on every match.
\<close>

definition setIndexJobFinished_update :: "'d entry \<Rightarrow> 'd entry" where
  "setIndexJobFinished_update d =
     d\<lparr>indexRequiredSince := None, indexJobTimeout := None, indexJob := None\<rparr>"

definition setIndexJobFinished ::
  "string \<Rightarrow> 'd collection \<Rightarrow> (error + unit) \<times> 'd collection" where
  "setIndexJobFinished job c =
     (Inr (), updateMany (\<lambda>d. indexJob d = Some job) setIndexJobFinished_update c)"

subsection \<open>save and saveMany\<close>

text \<open>
  The update document of \<^verbatim>\<open>toUpdateOneOperation\<close>. Its \<^verbatim>\<open>$set\<close> part is the spread of
  the entry without \<^verbatim>\<open>firstSeen\<close> and \<^verbatim>\<open>lastSeen\<close>: it holds \<^verbatim>\<open>indexJob\<close> and
  \<^verbatim>\<open>indexJobTimeout\<close> exactly when the entry carries them, and its
  \<^verbatim>\<open>indexRequiredSince\<close> is the clock, whatever the entry carries (the later key of the
  object literal wins).
\<close>

record 'd update_query =
  max_lastSeen :: int
  min_firstSeen :: int
  set_id :: string
  set_indexJob :: "string option"
  set_indexJobTimeout :: "int option"
  set_descriptive :: 'd
  set_indexRequiredSince :: int
  unset :: "field list"

record 'd update_one_operation =
  filter_id :: string
  update :: "'d update_query"
  upsert :: bool

definition toUpdateOneOperation :: "int \<Rightarrow> 'd entry \<Rightarrow> 'd update_one_operation" where
  "toUpdateOneOperation now entry =
     \<lparr>filter_id = entryId entry,
      update =
        \<lparr>max_lastSeen = lastSeen entry,
         min_firstSeen = firstSeen entry,
         set_id = entryId entry,
         set_indexJob = indexJob entry,
         set_indexJobTimeout = indexJobTimeout entry,
         set_descriptive = descriptive entry,
         set_indexRequiredSince = now,
         unset = [IndexJob, IndexJobTimeout]\<rparr>,
      upsert = True\<rparr>"

text \<open>The paths an update document addresses, operator by operator.\<close>

definition set_paths :: "'d update_query \<Rightarrow> field list" where
  "set_paths u =
     [Id]
     @ (case set_indexJob u of None \<Rightarrow> [] | Some _ \<Rightarrow> [IndexJob])
     @ (case set_indexJobTimeout u of None \<Rightarrow> [] | Some _ \<Rightarrow> [IndexJobTimeout])
     @ [Descriptive, IndexRequiredSince]"

definition update_paths :: "'d update_query \<Rightarrow> field list" where
  "update_paths u = [LastSeen] @ [FirstSeen] @ set_paths u @ unset u"

text \<open>
  \<^verbatim>\<open>$unset\<close> of one field. Only the optional fields can be absent from an entry; the
  repository unsets no other.
\<close>

fun unset_field :: "field \<Rightarrow> 'd entry \<Rightarrow> 'd entry" where
  "unset_field IndexRequiredSince d = d\<lparr>indexRequiredSince := None\<rparr>"
| "unset_field IndexJob d = d\<lparr>indexJob := None\<rparr>"
| "unset_field IndexJobTimeout d = d\<lparr>indexJobTimeout := None\<rparr>"
| "unset_field _ d = d"

text \<open>
  The update applied to a document that exists: \<^verbatim>\<open>$max\<close>, \<^verbatim>\<open>$min\<close>, \<^verbatim>\<open>$set\<close>
  (\<^verbatim>\<open>_id\<close> is set to the value it has), \<^verbatim>\<open>$unset\<close>.
\<close>

definition apply_update :: "'d update_query \<Rightarrow> 'd entry \<Rightarrow> 'd entry" where
  "apply_update u d =
     fold unset_field (unset u)
       (d\<lparr>lastSeen := max (lastSeen d) (max_lastSeen u),
          firstSeen := min (firstSeen d) (min_firstSeen u),
          indexJob := (case set_indexJob u of None \<Rightarrow> indexJob d | Some j \<Rightarrow> Some j),
          indexJobTimeout :=
            (case set_indexJobTimeout u of None \<Rightarrow> indexJobTimeout d | Some t \<Rightarrow> Some t),
          descriptive := set_descriptive u,
          indexRequiredSince := Some (set_indexRequiredSince u)\<rparr>)"

text \<open>
  The document an upsert inserts when no document matches \<^verbatim>\<open>{ _id }\<close>: the filter's
  \<^verbatim>\<open>_id\<close> with the update applied to it; \<^verbatim>\<open>$max\<close> and \<^verbatim>\<open>$min\<close> on an absent field set
  the field.
\<close>

definition upsert_document :: "string \<Rightarrow> 'd update_query \<Rightarrow> 'd entry" where
  "upsert_document i u =
     fold unset_field (unset u)
       \<lparr>entryId = i,
        firstSeen = min_firstSeen u,
        lastSeen = max_lastSeen u,
        indexRequiredSince = Some (set_indexRequiredSince u),
        indexJob = set_indexJob u,
        indexJobTimeout = set_indexJobTimeout u,
        descriptive = set_descriptive u\<rparr>"

text \<open>
  \<^verbatim>\<open>updateOne(filter, update, { upsert })\<close> for an operation of
  \<^verbatim>\<open>toUpdateOneOperation\<close>. The store rejects an update document that addresses a
  path twice and leaves the collection as it is.
\<close>

definition updateOne_upsert ::
  "'d update_one_operation \<Rightarrow> 'd collection \<Rightarrow> (error + unit) \<times> 'd collection" where
  "updateOne_upsert operation c =
     (if \<not> distinct (update_paths (update operation)) then (Inl ConflictingUpdateOperators, c)
      else if list_ex (\<lambda>d. entryId d = filter_id operation) c
      then (Inr (),
            updateOne (\<lambda>d. entryId d = filter_id operation) (apply_update (update operation)) c)
      else if upsert operation
      then (Inr (), c @ [upsert_document (filter_id operation) (update operation)])
      else (Inr (), c))"

text \<open>\<^verbatim>\<open>save(entry)\<close>; \<open>now\<close> is the clock \<^verbatim>\<open>toUpdateOneOperation\<close> reads.\<close>

definition save :: "int \<Rightarrow> 'd entry \<Rightarrow> 'd collection \<Rightarrow> (error + unit) \<times> 'd collection" where
  "save now entry c = updateOne_upsert (toUpdateOneOperation now entry) c"

text \<open>
  An unordered bulk write tries every operation and reports at the end whether one was
  rejected. The store may apply them in any order; the model applies them in the order of
  the list.
\<close>

fun applyUnordered :: "'d update_one_operation list \<Rightarrow> 'd collection \<Rightarrow> bool \<times> 'd collection" where
  "applyUnordered [] c = (False, c)"
| "applyUnordered (operation # operations) c =
     (case updateOne_upsert operation c of
        (r, c') \<Rightarrow>
          (case applyUnordered operations c' of
             (rejected, c'') \<Rightarrow> (isl r \<or> rejected, c'')))"

text \<open>
  \<^verbatim>\<open>saveMany(entries)\<close>; \<open>es\<close> pairs each entry with the clock its
  \<^verbatim>\<open>toUpdateOneOperation\<close> reads.
\<close>

definition saveMany ::
  "(int \<times> 'd entry) list \<Rightarrow> 'd collection \<Rightarrow> (error + unit) \<times> 'd collection" where
  "saveMany es c =
     (let operations = map (\<lambda>(now, entry). toUpdateOneOperation now entry) es
      in case operations of
           [] \<Rightarrow> (Inl InvalidOperation, c)
         | _ # _ \<Rightarrow>
             (case applyUnordered operations c of
                (rejected, c') \<Rightarrow> (if rejected then Inl BulkWriteError else Inr (), c')))"

subsection \<open>Histories of calls\<close>

text \<open>
  The collection after the first \<open>k\<close> operations of the bulk write of
  \<^verbatim>\<open>getIndexJob(count, timeout)\<close>.
\<close>

definition after_operations :: "nat \<Rightarrow> int \<Rightarrow> string \<Rightarrow> int \<Rightarrow> 'd collection \<Rightarrow> 'd collection" where
  "after_operations k timeout job timestamp c =
     applyOperations
       (replicate k (getIndexJob_filter timestamp, getIndexJob_update job timestamp timeout)) c"

text \<open>
  A call to the repository, with the clock and the random string it reads, and what a
  call leaves in the collection whether it returns or raises.
\<close>

datatype 'd call =
    Save int "'d entry"
  | SaveMany "(int \<times> 'd entry) list"
  | GetIndexJob nat int string int
  | SetIndexJobFinished string

fun perform :: "'d call \<Rightarrow> 'd collection \<Rightarrow> 'd collection" where
  "perform (Save now entry) c = snd (save now entry c)"
| "perform (SaveMany es) c = snd (saveMany es c)"
| "perform (GetIndexJob count timeout job timestamp) c = snd (getIndexJob count timeout job timestamp c)"
| "perform (SetIndexJobFinished job) c = snd (setIndexJobFinished job c)"

definition perform_all :: "'d call list \<Rightarrow> 'd collection \<Rightarrow> 'd collection" where
  "perform_all calls c = fold perform calls c"

text \<open>A sequence of \<^verbatim>\<open>save\<close> calls, with the result of each.\<close>

fun save_each ::
  "(int \<times> 'd entry) list \<Rightarrow> 'd collection \<Rightarrow> (error + unit) list \<times> 'd collection" where
  "save_each [] c = ([], c)"
| "save_each ((now, entry) # es) c =
     (case save now entry c of
        (r, c') \<Rightarrow> (case save_each es c' of (rs, c'') \<Rightarrow> (r # rs, c'')))"

subsection \<open>Invariants and leases\<close>




text \<open>
  A call that neither releases the job \<open>job\<close>, nor saves the entry \<open>i\<close>, nor is a claim
  at or after the time \<open>expiry\<close>.
\<close>

fun keeps_lease :: "string \<Rightarrow> string \<Rightarrow> int \<Rightarrow> 'd call \<Rightarrow> bool" where
  "keeps_lease job i expiry (Save now entry) \<longleftrightarrow> entryId entry \<noteq> i"
| "keeps_lease job i expiry (SaveMany es) \<longleftrightarrow> list_all (\<lambda>(now, entry). entryId entry \<noteq> i) es"
| "keeps_lease job i expiry (GetIndexJob count timeout job' timestamp) \<longleftrightarrow> timestamp < expiry"
| "keeps_lease job i expiry (SetIndexJobFinished job') \<longleftrightarrow> job' \<noteq> job"

subsection \<open>Two claims at once\<close>

text \<open>
  A call of \<^verbatim>\<open>getIndexJob\<close> draws its job id and reads the clock, hands its bulk
  write to the store, and reads its entries back once the bulk write is done. The store
  applies the operations of an ordered bulk write one by one; each \<^verbatim>\<open>updateOne\<close> is
  atomic on the document it changes, the bulk write as a whole is not, so the operations
  of two calls may alternate in any way. A call in progress is therefore at one of these
  points: it has some operations left to apply, or it has returned the entries it read
  back, or it has raised an error. The parameters of a call are its two arguments, the
  job id it drew and the clock it read.
\<close>

record claim_call =
  call_count :: nat
  call_timeout :: int
  call_job :: string
  call_timestamp :: int

datatype 'd progress = Writing nat | Returned "'d entry list" | Raised error

definition begin_claim :: "claim_call \<Rightarrow> 'd progress" where
  "begin_claim call =
     (case call_count call of 0 \<Rightarrow> Raised InvalidOperation | Suc n \<Rightarrow> Writing (Suc n))"

text \<open>One step of a call: its next operation, or the read-back after the last one.\<close>

fun claim_step :: "claim_call \<Rightarrow> 'd progress \<Rightarrow> 'd collection \<Rightarrow> 'd progress \<times> 'd collection" where
  "claim_step call (Writing (Suc n)) c =
     (Writing n,
      updateOne (getIndexJob_filter (call_timestamp call))
        (getIndexJob_update (call_job call) (call_timestamp call) (call_timeout call)) c)"
| "claim_step call (Writing 0) c =
     (Returned (loadManyByFilter (\<lambda>d. indexJob d = Some (call_job call)) c), c)"
| "claim_step call (Returned r) c = (Returned r, c)"
| "claim_step call (Raised e) c = (Raised e, c)"

text \<open>
  Two calls \<open>a\<close> and \<open>b\<close> that run at the same time: the schedule says whose step
  the store takes next (\<open>True\<close> for \<open>a\<close>).
\<close>

fun interleave ::
  "claim_call \<Rightarrow> claim_call \<Rightarrow> bool list \<Rightarrow> 'd progress \<times> 'd progress \<times> 'd collection
     \<Rightarrow> 'd progress \<times> 'd progress \<times> 'd collection" where
  "interleave a b [] s = s"
| "interleave a b (first # schedule) (pa, pb, c) =
     (if first
      then (case claim_step a pa c of (pa', c') \<Rightarrow> interleave a b schedule (pa', pb, c'))
      else (case claim_step b pb c of (pb', c') \<Rightarrow> interleave a b schedule (pa, pb', c')))"

definition concurrent_claims ::
  "claim_call \<Rightarrow> claim_call \<Rightarrow> bool list \<Rightarrow> 'd collection
     \<Rightarrow> 'd progress \<times> 'd progress \<times> 'd collection" where
  "concurrent_claims a b schedule c = interleave a b schedule (begin_claim a, begin_claim b, c)"

text \<open>
  Every entry tagged with the job of the call carries the timeout of the call; every
  entry the call has returned is still in the collection, tagged with its job.
\<close>

definition tagged_with_timeout :: "claim_call \<Rightarrow> 'd collection \<Rightarrow> bool" where
  "tagged_with_timeout x c \<longleftrightarrow>
     (\<forall>d\<in>set c. indexJob d = Some (call_job x) \<longrightarrow>
        indexJobTimeout d = Some (call_timestamp x + call_timeout x))"

definition holds_returned :: "claim_call \<Rightarrow> 'd progress \<Rightarrow> 'd collection \<Rightarrow> bool" where
  "holds_returned x p c \<longleftrightarrow>
     (\<forall>r. p = Returned r \<longrightarrow> (\<forall>e\<in>set r. e \<in> set c \<and> indexJob e = Some (call_job x)))"

subsection \<open>Example data\<close>

text \<open>
  The entry \<open>E1\<close> as a producer observes it at time 0, as the store holds it after a claim
  at time 1 with a lease of 30 under the job \<open>J1\<close>, and after the release of that job.
\<close>

definition E1 :: "string entry" where
  "E1 = \<lparr>entryId = ''E1'', firstSeen = 0, lastSeen = 0, indexRequiredSince = None,
         indexJob = None, indexJobTimeout = None, descriptive = ''first''\<rparr>"

definition E1_pending :: "string entry" where
  "E1_pending = E1\<lparr>indexRequiredSince := Some 0\<rparr>"

definition E1_leased :: "string entry" where
  "E1_leased = E1\<lparr>indexRequiredSince := Some 0, indexJob := Some ''J1'', indexJobTimeout := Some 31\<rparr>"

definition E2_pending :: "string entry" where
  "E2_pending = \<lparr>entryId = ''E2'', firstSeen = 3, lastSeen = 8, indexRequiredSince = Some 8,
         indexJob = None, indexJobTimeout = None, descriptive = ''second''\<rparr>"

section \<open>Properties\<close>

subsection \<open>The store's primitives\<close>

lemma length_updateOne: "length (updateOne flt upd c) = length c"
  by (induction c) auto

lemma updateOne_cases:
  "(\<forall>d\<in>set c. \<not> flt d) \<and> updateOne flt upd c = c \<or>
   (\<exists>i<length c. flt (c ! i) \<and> (\<forall>j<i. \<not> flt (c ! j)) \<and> updateOne flt upd c = c[i := upd (c ! i)])"
proof (induction c)
  case Nil
  then show ?case by simp
next
  case (Cons d ds)
  show ?case
  proof (cases "flt d")
    case True
    then have "0 < length (d # ds) \<and> flt ((d # ds) ! 0) \<and> (\<forall>j<0. \<not> flt ((d # ds) ! j)) \<and>
      updateOne flt upd (d # ds) = (d # ds)[0 := upd ((d # ds) ! 0)]" by simp
    then show ?thesis by blast
  next
    case False
    from Cons.IH show ?thesis
    proof
      assume "(\<forall>d\<in>set ds. \<not> flt d) \<and> updateOne flt upd ds = ds"
      with False show ?thesis by simp
    next
      assume "\<exists>i<length ds. flt (ds ! i) \<and> (\<forall>j<i. \<not> flt (ds ! j)) \<and> updateOne flt upd ds = ds[i := upd (ds ! i)]"
      then obtain i where i: "i < length ds" "flt (ds ! i)" "\<forall>j<i. \<not> flt (ds ! j)"
        "updateOne flt upd ds = ds[i := upd (ds ! i)]" by blast
      have "\<forall>j<Suc i. \<not> flt ((d # ds) ! j)"
        using False i(3) by (auto simp: nth_Cons split: nat.splits)
      with i False have "Suc i < length (d # ds) \<and> flt ((d # ds) ! Suc i) \<and> (\<forall>j<Suc i. \<not> flt ((d # ds) ! j)) \<and>
        updateOne flt upd (d # ds) = (d # ds)[Suc i := upd ((d # ds) ! Suc i)]" by simp
      then show ?thesis by blast
    qed
  qed
qed

lemma applyOperations_append:
  "applyOperations (xs @ ys) c = applyOperations ys (applyOperations xs c)"
  by (induction xs c rule: applyOperations.induct) auto

lemma applyOperations_replicate_Suc:
  "applyOperations (replicate (Suc n) (flt, upd)) c = updateOne flt upd (applyOperations (replicate n (flt, upd)) c)"
  using applyOperations_append[of "replicate n (flt, upd)" "[(flt, upd)]" c]
  by (simp add: replicate_append_same)

lemma after_operations_0: "after_operations 0 timeout job ts c = c"
  by (simp add: after_operations_def)

lemma after_operations_Suc:
  "after_operations (Suc k) timeout job ts c =
     updateOne (getIndexJob_filter ts) (getIndexJob_update job ts timeout)
       (after_operations k timeout job ts c)"
  unfolding after_operations_def by (rule applyOperations_replicate_Suc)

lemma length_after_operations: "length (after_operations k timeout job ts c) = length c"
  by (induction k) (simp_all add: after_operations_0 after_operations_Suc length_updateOne)

lemma getIndexJob_Inr:
  "getIndexJob count timeout job ts c = (Inr r, c') \<Longrightarrow>
     0 < count \<and> c' = after_operations count timeout job ts c \<and> jobId r = job \<and>
     entries r = filter (\<lambda>d. indexJob d = Some job) c'"
  by (cases count) (auto simp: getIndexJob_def bulkWrite_def after_operations_def loadManyByFilter_def)

lemma getIndexJob_pos:
  "0 < count \<Longrightarrow> getIndexJob count timeout job ts c =
     (Inr \<lparr>jobId = job, entries = filter (\<lambda>d. indexJob d = Some job) (after_operations count timeout job ts c)\<rparr>,
      after_operations count timeout job ts c)"
  by (cases count) (auto simp: getIndexJob_def bulkWrite_def after_operations_def loadManyByFilter_def)

lemma filter_updateOne_le:
  "length (filter T (updateOne flt upd c)) \<le> Suc (length (filter T c))"
  by (induction c) auto

lemma tagged_after_operations_le:
  assumes "\<forall>d\<in>set c. indexJob d \<noteq> Some job"
  shows "length (filter (\<lambda>d. indexJob d = Some job) (after_operations k timeout job ts c)) \<le> k"
proof (induction k)
  case 0
  have "filter (\<lambda>d. indexJob d = Some job) c = []" using assms by (simp add: filter_empty_conv)
  then show ?case by (simp add: after_operations_0)
next
  case (Suc k)
  show ?case
    unfolding after_operations_Suc
    using filter_updateOne_le[of "\<lambda>d. indexJob d = Some job" "getIndexJob_filter ts"
        "getIndexJob_update job ts timeout" "after_operations k timeout job ts c"] Suc.IH
    by linarith
qed

lemma tagged_after_operations:
  assumes fresh: "\<forall>d\<in>set c. indexJob d \<noteq> Some job"
  shows "i < length c \<Longrightarrow> indexJob (after_operations n timeout job ts c ! i) = Some job \<Longrightarrow>
     \<exists>k<n. getIndexJob_filter ts (after_operations k timeout job ts c ! i) \<and>
        (\<forall>j<i. \<not> getIndexJob_filter ts (after_operations k timeout job ts c ! j)) \<and>
        after_operations (Suc k) timeout job ts c =
          (after_operations k timeout job ts c)
            [i := getIndexJob_update job ts timeout (after_operations k timeout job ts c ! i)] \<and>
        after_operations n timeout job ts c ! i =
          getIndexJob_update job ts timeout (after_operations k timeout job ts c ! i)"
proof (induction n)
  case 0
  then show ?case using fresh by (simp add: after_operations_0)
next
  case (Suc n)
  let ?S = "\<lambda>k. after_operations k timeout job ts c"
  let ?F = "getIndexJob_filter ts"
  let ?U = "getIndexJob_update job ts timeout"
  have step: "?S (Suc n) = updateOne ?F ?U (?S n)" by (rule after_operations_Suc)
  have len: "length (?S n) = length c" by (rule length_after_operations)
  from updateOne_cases[of "?S n" ?F ?U]
  consider (none) "?S (Suc n) = ?S n"
    | (some) m where "m < length c" "?F (?S n ! m)" "\<forall>j<m. \<not> ?F (?S n ! j)"
        "?S (Suc n) = (?S n)[m := ?U (?S n ! m)]"
    using step len by auto
  then show ?case
  proof cases
    case none
    with Suc.prems have "indexJob (?S n ! i) = Some job" by simp
    from Suc.IH[OF Suc.prems(1) this] obtain k where "k < n" and
      k: "?F (?S k ! i)" "\<forall>j<i. \<not> ?F (?S k ! j)" "?S (Suc k) = (?S k)[i := ?U (?S k ! i)]"
        "?S n ! i = ?U (?S k ! i)" by blast
    then have "k < Suc n \<and> ?F (?S k ! i) \<and> (\<forall>j<i. \<not> ?F (?S k ! j)) \<and>
       ?S (Suc k) = (?S k)[i := ?U (?S k ! i)] \<and> ?S (Suc n) ! i = ?U (?S k ! i)"
      using none by simp
    then show ?thesis by blast
  next
    case some
    show ?thesis
    proof (cases "i = m")
      case True
      have "?S (Suc n) ! i = ?U (?S n ! i)" using some(4) True Suc.prems(1) len by simp
      then have "n < Suc n \<and> ?F (?S n ! i) \<and> (\<forall>j<i. \<not> ?F (?S n ! j)) \<and>
         ?S (Suc n) = (?S n)[i := ?U (?S n ! i)] \<and> ?S (Suc n) ! i = ?U (?S n ! i)"
        using some True by simp
      then show ?thesis by blast
    next
      case False
      then have same: "?S (Suc n) ! i = ?S n ! i" using some(4) by simp
      with Suc.prems have "indexJob (?S n ! i) = Some job" by simp
      from Suc.IH[OF Suc.prems(1) this] obtain k where "k < n" and
        k: "?F (?S k ! i)" "\<forall>j<i. \<not> ?F (?S k ! j)" "?S (Suc k) = (?S k)[i := ?U (?S k ! i)]"
          "?S n ! i = ?U (?S k ! i)" by blast
      then have "k < Suc n \<and> ?F (?S k ! i) \<and> (\<forall>j<i. \<not> ?F (?S k ! j)) \<and>
         ?S (Suc k) = (?S k)[i := ?U (?S k ! i)] \<and> ?S (Suc n) ! i = ?U (?S k ! i)"
        using same by simp
      then show ?thesis by blast
    qed
  qed
qed

lemma getIndexJob_snd:
  "snd (getIndexJob count timeout job ts c) = after_operations count timeout job ts c"
  by (cases count) (simp_all add: getIndexJob_def bulkWrite_def after_operations_def)

subsection \<open>Claiming\<close>

lemma returned_entry:
  assumes fresh: "\<forall>d\<in>set c. indexJob d \<noteq> Some job"
    and call: "getIndexJob count timeout job ts c = (Inr r, c')"
    and ret: "e \<in> set (entries r)"
  shows "e \<in> set c' \<and> indexJob e = Some job \<and> indexJobTimeout e = Some (ts + timeout) \<and>
        (\<exists>k<count. \<exists>i<length c.
           getIndexJob_filter ts (after_operations k timeout job ts c ! i) \<and>
           (\<forall>j<i. \<not> getIndexJob_filter ts (after_operations k timeout job ts c ! j)) \<and>
           e = getIndexJob_update job ts timeout (after_operations k timeout job ts c ! i) \<and>
           after_operations (Suc k) timeout job ts c = (after_operations k timeout job ts c)[i := e] \<and>
           c' ! i = e)"
proof -
  from getIndexJob_Inr[OF call] have c': "c' = after_operations count timeout job ts c"
    and r: "entries r = filter (\<lambda>d. indexJob d = Some job) c'" by simp_all
  from ret have mem: "e \<in> set c'" and tag: "indexJob e = Some job" by (simp_all add: r)
  from mem obtain i where i: "i < length c'" "c' ! i = e" by (auto simp: in_set_conv_nth)
  have ilen: "i < length c" using i(1) by (simp add: c' length_after_operations)
  have "indexJob (after_operations count timeout job ts c ! i) = Some job"
    using i(2) tag by (simp add: c')
  from tagged_after_operations[OF fresh ilen this] obtain k where "k < count" and
    k: "getIndexJob_filter ts (after_operations k timeout job ts c ! i)"
       "\<forall>j<i. \<not> getIndexJob_filter ts (after_operations k timeout job ts c ! j)"
       "after_operations (Suc k) timeout job ts c = (after_operations k timeout job ts c)
          [i := getIndexJob_update job ts timeout (after_operations k timeout job ts c ! i)]"
       "after_operations count timeout job ts c ! i =
          getIndexJob_update job ts timeout (after_operations k timeout job ts c ! i)"
    by blast
  have e: "e = getIndexJob_update job ts timeout (after_operations k timeout job ts c ! i)"
    using k(4) i(2) by (simp add: c')
  have "indexJobTimeout e = Some (ts + timeout)" by (subst e) (simp add: getIndexJob_update_def)
  moreover have "\<exists>k<count. \<exists>i<length c.
         getIndexJob_filter ts (after_operations k timeout job ts c ! i) \<and>
         (\<forall>j<i. \<not> getIndexJob_filter ts (after_operations k timeout job ts c ! j)) \<and>
         e = getIndexJob_update job ts timeout (after_operations k timeout job ts c ! i) \<and>
         after_operations (Suc k) timeout job ts c = (after_operations k timeout job ts c)[i := e] \<and>
         c' ! i = e"
    using \<open>k < count\<close> ilen k(1,2,3) e i(2) by metis
  ultimately show ?thesis using mem tag by simp
qed

lemma returned_entry_required:
  assumes "\<forall>d\<in>set c. indexJob d \<noteq> Some job"
    and "getIndexJob count timeout job ts c = (Inr r, c')"
    and "e \<in> set (entries r)"
  shows "indexRequiredSince e \<noteq> None"
proof -
  from returned_entry[OF assms] obtain k i where
    "getIndexJob_filter ts (after_operations k timeout job ts c ! i)"
    "e = getIndexJob_update job ts timeout (after_operations k timeout job ts c ! i)"
    by blast
  then show ?thesis by (simp add: getIndexJob_filter_def getIndexJob_update_def)
qed

text \<open>
  C1. A call of \<^verbatim>\<open>getIndexJob(count, timeout)\<close> that draws a job id no stored entry is
  tagged with returns that job id and at most \<open>count\<close> entries. Every returned entry is a
  document of the collection after the call, carries the job id and the timeout
  \<open>timestamp + timeout\<close>, and is the update of a document that matched the filter of the
  call when one of the \<open>count\<close> operations of the bulk write reached it: before that
  operation the document was the first to match, and the operation put the returned
  entry in its place.
\<close>

theorem getIndexJob_claims:
  assumes fresh: "\<forall>d\<in>set c. indexJob d \<noteq> Some job"
    and call: "getIndexJob count timeout job ts c = (Inr r, c')"
  shows "jobId r = job \<and> length (entries r) \<le> count \<and>
     (\<forall>e\<in>set (entries r).
        e \<in> set c' \<and> indexJob e = Some (jobId r) \<and> indexJobTimeout e = Some (ts + timeout) \<and>
        (\<exists>k<count. \<exists>i<length c.
           getIndexJob_filter ts (after_operations k timeout job ts c ! i) \<and>
           (\<forall>j<i. \<not> getIndexJob_filter ts (after_operations k timeout job ts c ! j)) \<and>
           e = getIndexJob_update job ts timeout (after_operations k timeout job ts c ! i) \<and>
           after_operations (Suc k) timeout job ts c = (after_operations k timeout job ts c)[i := e] \<and>
           c' ! i = e))"
proof -
  from getIndexJob_Inr[OF call] have c': "c' = after_operations count timeout job ts c"
    and r: "jobId r = job" "entries r = filter (\<lambda>d. indexJob d = Some job) c'" by simp_all
  have "length (entries r) \<le> count"
    unfolding r c' using fresh by (rule tagged_after_operations_le)
  then show ?thesis using r(1) returned_entry[OF fresh call] by simp
qed

theorem getIndexJob_claims_witness:
  "getIndexJob 5 30 ''J1'' 1 [E1_pending] =
     (Inr \<lparr>jobId = ''J1'', entries = [E1_leased]\<rparr>, [E1_leased]) \<and>
   length [E1_leased] \<le> (5::nat) \<and>
   indexJob E1_leased = Some ''J1'' \<and> indexJobTimeout E1_leased = Some (1 + 30) \<and>
   getIndexJob_filter 1 E1_pending \<and> E1_leased = getIndexJob_update ''J1'' 1 30 E1_pending"
proof -
  have fresh: "\<forall>d\<in>set [E1_pending]. indexJob d \<noteq> Some ''J1''"
    by (simp add: E1_pending_def E1_def)
  have call: "getIndexJob 5 30 ''J1'' 1 [E1_pending] =
     (Inr \<lparr>jobId = ''J1'', entries = [E1_leased]\<rparr>, [E1_leased])"
    by (simp add: getIndexJob_def bulkWrite_def loadManyByFilter_def eval_nat_numeral
        getIndexJob_filter_def getIndexJob_update_def E1_pending_def E1_leased_def E1_def)
  from getIndexJob_claims[OF fresh call] show ?thesis
    using call by (simp add: getIndexJob_filter_def getIndexJob_update_def E1_pending_def E1_leased_def E1_def)
qed



subsection \<open>Releasing\<close>

text \<open>
  C6. \<^verbatim>\<open>setIndexJobFinished(jobId)\<close> returns without error. In every document tagged
  with the job id it removes \<open>indexRequiredSince\<close>, \<open>indexJob\<close> and \<open>indexJobTimeout\<close>,
  so that the entry requires no indexing and matches the filter of no claim, and it
  changes nothing else of that document; every other document stays as it is.
\<close>

theorem setIndexJobFinished_releases:
  assumes "setIndexJobFinished job c = (r, c')"
  shows "r = Inr () \<and> length c' = length c \<and>
    (\<forall>i<length c.
       (indexJob (c ! i) = Some job \<longrightarrow>
          indexRequiredSince (c' ! i) = None \<and> indexJob (c' ! i) = None \<and>
          indexJobTimeout (c' ! i) = None \<and> (\<forall>ts. \<not> getIndexJob_filter ts (c' ! i)) \<and>
          entryId (c' ! i) = entryId (c ! i) \<and> firstSeen (c' ! i) = firstSeen (c ! i) \<and>
          lastSeen (c' ! i) = lastSeen (c ! i) \<and> descriptive (c' ! i) = descriptive (c ! i)) \<and>
       (indexJob (c ! i) \<noteq> Some job \<longrightarrow> c' ! i = c ! i))"
  using assms
  by (auto simp: setIndexJobFinished_def updateMany_def setIndexJobFinished_update_def
      getIndexJob_filter_def)

theorem setIndexJobFinished_releases_witness:
  "setIndexJobFinished ''J1'' [E1_leased, E2_pending] = (Inr (), [E1, E2_pending]) \<and>
   indexJob ([E1_leased, E2_pending] ! 0) = Some ''J1'' \<and>
   indexRequiredSince ([E1, E2_pending] ! 0) = None \<and> indexJob ([E1, E2_pending] ! 0) = None \<and>
   indexJobTimeout ([E1, E2_pending] ! 0) = None \<and>
   indexJob ([E1_leased, E2_pending] ! 1) \<noteq> Some ''J1'' \<and>
   [E1, E2_pending] ! 1 = [E1_leased, E2_pending] ! 1"
proof -
  have call: "setIndexJobFinished ''J1'' [E1_leased, E2_pending] = (Inr (), [E1, E2_pending])"
    by (simp add: setIndexJobFinished_def updateMany_def setIndexJobFinished_update_def
        E1_leased_def E2_pending_def E1_def)
  from setIndexJobFinished_releases[OF call] show ?thesis
    using call by (simp add: E1_leased_def E2_pending_def E1_def)
qed

text \<open>
  C3, as stated, fails: the job \<open>J1\<close> holds \<open>E1\<close> under a lease that expired at 31, and
  its release at 32 or later is no no-op, it clears the three index fields of \<open>E1\<close>.
\<close>

theorem setIndexJobFinished_expired_counterexample:
  "indexJob E1_leased = Some ''J1'' \<and> indexJobTimeout E1_leased = Some 31 \<and> (31::int) \<le> 32 \<and>
   setIndexJobFinished ''J1'' [E1_leased] = (Inr (), [E1]) \<and> [E1] \<noteq> [E1_leased]"
  by (simp add: setIndexJobFinished_def updateMany_def setIndexJobFinished_update_def
      E1_leased_def E1_def)

text \<open>
  C3, amended. \<^verbatim>\<open>setIndexJobFinished(jobId)\<close> never raises an error. When no stored
  entry is tagged with the job id (the job was released already, or its entries were
  claimed anew or saved again since) the call changes no entry; in particular a second
  release of the same job changes nothing.
\<close>

theorem setIndexJobFinished_untagged:
  "((\<forall>d\<in>set c. indexJob d \<noteq> Some job) \<longrightarrow> setIndexJobFinished job c = (Inr (), c)) \<and>
   fst (setIndexJobFinished job c) = Inr () \<and>
   setIndexJobFinished job (snd (setIndexJobFinished job c)) =
     (Inr (), snd (setIndexJobFinished job c))"
proof -
  have noop: "updateMany (\<lambda>d. indexJob d = Some job) upd c = c"
    if "\<forall>d\<in>set c. indexJob d \<noteq> Some job" for c :: "'a collection" and upd
    using that by (simp add: updateMany_def map_idI)
  have "\<forall>d\<in>set (updateMany (\<lambda>d. indexJob d = Some job) setIndexJobFinished_update c).
          indexJob d \<noteq> Some job"
    by (auto simp: updateMany_def setIndexJobFinished_update_def)
  from noop[OF this] noop[of c] show ?thesis
    by (simp add: setIndexJobFinished_def)
qed

theorem setIndexJobFinished_untagged_witness:
  "indexJob E1_pending \<noteq> Some ''J1'' \<and> indexJob E2_pending \<noteq> Some ''J1'' \<and>
   setIndexJobFinished ''J1'' [E1_pending, E2_pending] = (Inr (), [E1_pending, E2_pending])"
proof -
  have "\<forall>d\<in>set [E1_pending, E2_pending]. indexJob d \<noteq> Some ''J1''"
    by (simp add: E1_pending_def E2_pending_def E1_def)
  with setIndexJobFinished_untagged[of "[E1_pending, E2_pending]" "''J1''"] show ?thesis
    by (simp add: E1_pending_def E2_pending_def E1_def)
qed

subsection \<open>What claim and release leave alone\<close>

lemma updateOne_map_cong:
  "(\<And>d. f (upd d) = f d) \<Longrightarrow> map f (updateOne flt upd c) = map f c"
  by (induction c) auto

lemma after_operations_map_cong:
  "(\<And>d. f (getIndexJob_update job ts timeout d) = f d) \<Longrightarrow>
     map f (after_operations n timeout job ts c) = map f c"
  by (induction n) (simp_all add: after_operations_0 after_operations_Suc updateOne_map_cong)

lemma setIndexJobFinished_map_cong:
  "(\<And>d. f (setIndexJobFinished_update d) = f d) \<Longrightarrow>
     map f (snd (setIndexJobFinished job c)) = map f c"
  by (simp add: setIndexJobFinished_def updateMany_def)

text \<open>
  C8. Neither \<^verbatim>\<open>getIndexJob\<close> nor \<^verbatim>\<open>setIndexJobFinished\<close> changes the id, the
  watermarks \<open>firstSeen\<close> and \<open>lastSeen\<close> or the descriptive fields of any document:
  the collection after the call holds the same documents in the same places, up to
  \<open>indexRequiredSince\<close>, \<open>indexJob\<close> and \<open>indexJobTimeout\<close>.
\<close>

theorem claim_release_frame:
  "map (\<lambda>d. (entryId d, firstSeen d, lastSeen d, descriptive d))
       (snd (getIndexJob count timeout job ts c)) =
   map (\<lambda>d. (entryId d, firstSeen d, lastSeen d, descriptive d)) c \<and>
   map (\<lambda>d. (entryId d, firstSeen d, lastSeen d, descriptive d))
       (snd (setIndexJobFinished job' c)) =
   map (\<lambda>d. (entryId d, firstSeen d, lastSeen d, descriptive d)) c"
  by (simp add: getIndexJob_snd after_operations_map_cong setIndexJobFinished_map_cong
      getIndexJob_update_def setIndexJobFinished_update_def)

subsection \<open>Saving\<close>

lemma update_paths_distinct:
  "distinct (update_paths (update (toUpdateOneOperation now e))) \<longleftrightarrow>
     indexJob e = None \<and> indexJobTimeout e = None"
  by (cases "indexJob e"; cases "indexJobTimeout e")
     (simp_all add: toUpdateOneOperation_def update_paths_def set_paths_def)

lemma apply_update_toUpdateOneOperation:
  "apply_update (update (toUpdateOneOperation now e)) d =
     d\<lparr>lastSeen := max (lastSeen d) (lastSeen e), firstSeen := min (firstSeen d) (firstSeen e),
       indexJob := None, indexJobTimeout := None, descriptive := descriptive e,
       indexRequiredSince := Some now\<rparr>"
  by (simp add: apply_update_def toUpdateOneOperation_def)

lemma upsert_document_toUpdateOneOperation:
  "upsert_document i (update (toUpdateOneOperation now e)) =
     \<lparr>entryId = i, firstSeen = firstSeen e, lastSeen = lastSeen e,
      indexRequiredSince = Some now, indexJob = None, indexJobTimeout = None,
      descriptive = descriptive e\<rparr>"
  by (simp add: upsert_document_def toUpdateOneOperation_def)

lemma updateOne_upsert_toUpdateOneOperation:
  "updateOne_upsert (toUpdateOneOperation now e) c =
     (if indexJob e = None \<and> indexJobTimeout e = None
      then (Inr (),
            if list_ex (\<lambda>d. entryId d = entryId e) c
            then updateOne (\<lambda>d. entryId d = entryId e)
                   (apply_update (update (toUpdateOneOperation now e))) c
            else c @ [upsert_document (entryId e) (update (toUpdateOneOperation now e))])
      else (Inl ConflictingUpdateOperators, c))"
  unfolding updateOne_upsert_def update_paths_distinct
  by (simp add: toUpdateOneOperation_def)

lemma save_eq:
  "save now e c =
     (if indexJob e = None \<and> indexJobTimeout e = None
      then (Inr (),
            if list_ex (\<lambda>d. entryId d = entryId e) c
            then updateOne (\<lambda>d. entryId d = entryId e)
                   (apply_update (update (toUpdateOneOperation now e))) c
            else c @ [upsert_document (entryId e) (update (toUpdateOneOperation now e))])
      else (Inl ConflictingUpdateOperators, c))"
  unfolding save_def by (rule updateOne_upsert_toUpdateOneOperation)

lemma filter_updateOne_same:
  assumes "\<And>d. flt (upd d) = flt d"
  shows "filter flt (updateOne flt upd c) =
     (case filter flt c of [] \<Rightarrow> [] | d # ds \<Rightarrow> upd d # ds)"
  by (induction c) (auto simp: assms)

lemma entryId_apply_update:
  "entryId (apply_update (update (toUpdateOneOperation now e)) d) = entryId d"
  by (simp add: apply_update_toUpdateOneOperation)

lemma save_existing:
  assumes "filter (\<lambda>d. entryId d = entryId e) c = [d]"
    and "indexJob e = None" and "indexJobTimeout e = None"
  shows "filter (\<lambda>d. entryId d = entryId e) (snd (save now e c)) =
     [apply_update (update (toUpdateOneOperation now e)) d]"
proof -
  have "d \<in> set (filter (\<lambda>d. entryId d = entryId e) c)" using assms(1) by simp
  then have "list_ex (\<lambda>d. entryId d = entryId e) c" by (auto simp: list_ex_iff)
  then show ?thesis
    using assms by (simp add: save_eq filter_updateOne_same entryId_apply_update)
qed

lemma save_new:
  assumes "filter (\<lambda>d. entryId d = entryId e) c = []"
    and "indexJob e = None" and "indexJobTimeout e = None"
  shows "filter (\<lambda>d. entryId d = entryId e) (snd (save now e c)) =
     [upsert_document (entryId e) (update (toUpdateOneOperation now e))]"
proof -
  have "\<not> list_ex (\<lambda>d. entryId d = entryId e) c"
    using assms(1) by (auto simp: list_ex_iff filter_empty_conv)
  then show ?thesis
    using assms by (simp add: save_eq upsert_document_toUpdateOneOperation)
qed

lemma save_each_results:
  "save_each calls c = (rs, c') \<Longrightarrow>
     (\<forall>r\<in>set rs. r = Inr ()) \<longleftrightarrow>
     (\<forall>(now, e)\<in>set calls. indexJob e = None \<and> indexJobTimeout e = None)"
proof (induction calls arbitrary: c rs c')
  case Nil
  then show ?case by simp
next
  case (Cons x calls)
  obtain now e where x: "x = (now, e)" by (cases x)
  obtain r c1 where s: "save now e c = (r, c1)" by (cases "save now e c")
  obtain rs1 c2 where t: "save_each calls c1 = (rs1, c2)" by (cases "save_each calls c1")
  from Cons.prems have rs: "rs = r # rs1" by (simp add: x s t)
  have "r = Inr () \<longleftrightarrow> indexJob e = None \<and> indexJobTimeout e = None"
    using s by (auto simp: save_eq split: if_splits)
  with Cons.IH[OF t] show ?case by (simp add: rs x)
qed

lemma save_each_Cons_snd:
  "snd (save_each ((now, e) # calls) c) = snd (save_each calls (snd (save now e c)))"
  by (simp split: prod.splits)

lemma save_each_merges:
  assumes "\<forall>(now, e)\<in>set calls. entryId e = i \<and> indexJob e = None \<and> indexJobTimeout e = None"
    and "filter (\<lambda>d. entryId d = i) c = [d]"
  shows "\<exists>d'. filter (\<lambda>d. entryId d = i) (snd (save_each calls c)) = [d'] \<and>
     firstSeen d' = Min (insert (firstSeen d) (firstSeen ` snd ` set calls)) \<and>
     lastSeen d' = Max (insert (lastSeen d) (lastSeen ` snd ` set calls))"
  using assms
proof (induction calls arbitrary: c d)
  case Nil
  then show ?case by simp
next
  case (Cons x calls)
  obtain now e where x: "x = (now, e)" by (cases x)
  from Cons.prems(1) have e: "entryId e = i" "indexJob e = None" "indexJobTimeout e = None"
    and rest: "\<forall>(now, e)\<in>set calls. entryId e = i \<and> indexJob e = None \<and> indexJobTimeout e = None"
    by (simp_all add: x)
  let ?d1 = "apply_update (update (toUpdateOneOperation now e)) d"
  have "filter (\<lambda>d. entryId d = i) (snd (save now e c)) = [?d1]"
    using save_existing[of e c d now] Cons.prems(2) e by simp
  from Cons.IH[OF rest this] obtain d' where
    d': "filter (\<lambda>d. entryId d = i) (snd (save_each calls (snd (save now e c)))) = [d']"
        "firstSeen d' = Min (insert (firstSeen ?d1) (firstSeen ` snd ` set calls))"
        "lastSeen d' = Max (insert (lastSeen ?d1) (lastSeen ` snd ` set calls))"
    by blast
  have f: "firstSeen ?d1 = min (firstSeen d) (firstSeen e)"
    and l: "lastSeen ?d1 = max (lastSeen d) (lastSeen e)"
    by (simp_all add: apply_update_toUpdateOneOperation)
  have "Min (insert (firstSeen ?d1) (firstSeen ` snd ` set calls)) =
        Min (insert (firstSeen d) (firstSeen ` snd ` set (x # calls)))"
    unfolding f x by (cases "calls = []") (simp_all add: min.assoc)
  moreover have "Max (insert (lastSeen ?d1) (lastSeen ` snd ` set calls)) =
        Max (insert (lastSeen d) (lastSeen ` snd ` set (x # calls)))"
    unfolding l x by (cases "calls = []") (simp_all add: max.assoc)
  ultimately show ?case
    using d' unfolding x save_each_Cons_snd by simp
qed

text \<open>
  Saves of entry values that carry no lease fields are all accepted and merge the
  watermarks: from a collection without the id, the record of the id has the least
  \<open>firstSeen\<close> and the greatest \<open>lastSeen\<close> supplied, in whatever order the values
  came.
\<close>

lemma plain_saves_watermarks:
  assumes nonempty: "calls \<noteq> []"
    and plain: "\<forall>(now, e)\<in>set calls. entryId e = i \<and> indexJob e = None \<and> indexJobTimeout e = None"
    and absent: "\<forall>d\<in>set c. entryId d \<noteq> i"
  shows "(\<forall>r\<in>set (fst (save_each calls c)). r = Inr ()) \<and>
     (\<exists>d. filter (\<lambda>d. entryId d = i) (snd (save_each calls c)) = [d] \<and>
        firstSeen d = Min (firstSeen ` snd ` set calls) \<and>
        lastSeen d = Max (lastSeen ` snd ` set calls))"
proof -
  from nonempty obtain now e rest where calls: "calls = (now, e) # rest"
    by (cases calls) auto
  from plain have e: "entryId e = i" "indexJob e = None" "indexJobTimeout e = None"
    and rest: "\<forall>(now, e)\<in>set rest. entryId e = i \<and> indexJob e = None \<and> indexJobTimeout e = None"
    by (simp_all add: calls)
  let ?d0 = "upsert_document (entryId e) (update (toUpdateOneOperation now e))"
  have "filter (\<lambda>d. entryId d = entryId e) c = []"
    using absent e(1) by (simp add: filter_empty_conv)
  from save_new[OF this e(2,3), of now]
  have "filter (\<lambda>d. entryId d = i) (snd (save now e c)) = [?d0]" by (simp add: e(1))
  from save_each_merges[OF rest this] obtain d where
    d: "filter (\<lambda>d. entryId d = i) (snd (save_each rest (snd (save now e c)))) = [d]"
       "firstSeen d = Min (insert (firstSeen ?d0) (firstSeen ` snd ` set rest))"
       "lastSeen d = Max (insert (lastSeen ?d0) (lastSeen ` snd ` set rest))"
    by blast
  have "firstSeen ?d0 = firstSeen e" "lastSeen ?d0 = lastSeen e"
    by (simp_all add: upsert_document_toUpdateOneOperation)
  with d have merged: "\<exists>d. filter (\<lambda>d. entryId d = i) (snd (save_each calls c)) = [d] \<and>
        firstSeen d = Min (firstSeen ` snd ` set calls) \<and>
        lastSeen d = Max (lastSeen ` snd ` set calls)"
    unfolding calls save_each_Cons_snd by simp
  obtain rs c' where run: "save_each calls c = (rs, c')" by (cases "save_each calls c")
  from save_each_results[OF run] plain have "\<forall>r\<in>set rs. r = Inr ()" by auto
  with run merged show ?thesis by simp
qed

text \<open>
  C5 fails on the code, by the defect of C4. \<open>E1\<close> is saved at time 0, then the value
  the store holds under the lease of \<open>J1\<close> is saved for the same id at time 5 with
  \<open>firstSeen\<close> -5 and \<open>lastSeen\<close> 9. That value carries its lease fields, so the
  second update sets and unsets the same paths and the store rejects it: the record
  keeps the watermarks 0 and 0, while the least \<open>firstSeen\<close> supplied is -5 and the
  greatest \<open>lastSeen\<close> supplied is 9.
\<close>

theorem save_each_rejected_watermarks:
  "save_each [(0, E1), (5, E1_leased\<lparr>firstSeen := - 5, lastSeen := 9\<rparr>)] [] =
     ([Inr (), Inl ConflictingUpdateOperators], [E1_pending]) \<and>
   entryId (E1_leased\<lparr>firstSeen := - 5, lastSeen := 9\<rparr>) = entryId E1 \<and>
   firstSeen E1_pending = 0 \<and> lastSeen E1_pending = 0 \<and>
   Min (firstSeen ` snd ` set [(0::int, E1), (5, E1_leased\<lparr>firstSeen := - 5, lastSeen := 9\<rparr>)]) = - 5 \<and>
   Max (lastSeen ` snd ` set [(0::int, E1), (5, E1_leased\<lparr>firstSeen := - 5, lastSeen := 9\<rparr>)]) = 9"
  by (simp add: save_eq upsert_document_toUpdateOneOperation E1_pending_def E1_leased_def E1_def)

subsection \<open>The record invariants\<close>









lemma applyUnordered_Cons_snd:
  "snd (applyUnordered (operation # operations) c) =
     snd (applyUnordered operations (snd (updateOne_upsert operation c)))"
  by (simp split: prod.splits)


lemma saveMany_snd:
  "snd (saveMany es c) =
     snd (applyUnordered (map (\<lambda>(now, entry). toUpdateOneOperation now entry) es) c)"
  by (cases es) (simp_all add: saveMany_def split: prod.splits)




subsection \<open>Saving a leased entry\<close>

text \<open>
  A save of an entry value that carries no lease fields is accepted, and it leaves the
  record of that id without lease and with \<open>indexRequiredSince\<close> at the clock of the
  save, whatever marker the value carries.
\<close>

lemma save_clears_lease:
  assumes "indexJob e = None" and "indexJobTimeout e = None"
    and "filter (\<lambda>d. entryId d = entryId e) c = [d]"
  shows "\<exists>d'. fst (save now e c) = Inr () \<and>
     filter (\<lambda>d. entryId d = entryId e) (snd (save now e c)) = [d'] \<and>
     indexJob d' = None \<and> indexJobTimeout d' = None \<and> indexRequiredSince d' = Some now"
  using save_existing[OF assms(3,1,2), of now] assms(1,2)
  by (simp add: save_eq apply_update_toUpdateOneOperation)

text \<open>
  C4 fails on the code. \<open>E1\<close> is stored under the lease of the job \<open>J1\<close>. Saving the
  entry value that \<^verbatim>\<open>getIndexJob\<close> returned (it carries \<open>indexJob\<close> and
  \<open>indexJobTimeout\<close>), here with a later \<open>lastSeen\<close>, sends an update that sets and
  unsets the same two paths: the store rejects it, the record keeps its lease, and a
  later release of \<open>J1\<close> still changes the record.
\<close>

theorem save_leased_entry_rejected:
  "save 5 (E1_leased\<lparr>lastSeen := 9\<rparr>) [E1_leased] = (Inl ConflictingUpdateOperators, [E1_leased]) \<and>
   indexRequiredSince E1_leased = Some 0 \<and> indexJob E1_leased = Some ''J1'' \<and>
   indexJobTimeout E1_leased = Some 31 \<and>
   setIndexJobFinished ''J1'' [E1_leased] = (Inr (), [E1]) \<and> E1 \<noteq> E1_leased"
  by (simp add: save_def updateOne_upsert_def toUpdateOneOperation_def update_paths_def set_paths_def
      E1_leased_def E1_def setIndexJobFinished_def updateMany_def setIndexJobFinished_update_def)

subsection \<open>The life of a lease\<close>

lemma updateOne_keeps:
  "e \<in> set c \<Longrightarrow> \<not> flt e \<Longrightarrow> e \<in> set (updateOne flt upd c)"
  by (induction c) auto

lemma after_operations_keeps:
  "e \<in> set c \<Longrightarrow> \<not> getIndexJob_filter ts e \<Longrightarrow> e \<in> set (after_operations n timeout job ts c)"
  by (induction n) (simp_all add: after_operations_0 after_operations_Suc updateOne_keeps)

lemma updateMany_keeps:
  "e \<in> set c \<Longrightarrow> \<not> flt e \<Longrightarrow> e \<in> set (updateMany flt upd c)"
  by (force simp: updateMany_def)

lemma updateOne_upsert_keeps:
  "e \<in> set c \<Longrightarrow> entryId x \<noteq> entryId e \<Longrightarrow>
     e \<in> set (snd (updateOne_upsert (toUpdateOneOperation now x) c))"
  by (auto simp: updateOne_upsert_toUpdateOneOperation intro: updateOne_keeps)

lemma applyUnordered_keeps:
  "e \<in> set c \<Longrightarrow> list_all (\<lambda>(now, x). entryId x \<noteq> entryId e) es \<Longrightarrow>
     e \<in> set (snd (applyUnordered (map (\<lambda>(now, entry). toUpdateOneOperation now entry) es) c))"
proof (induction es arbitrary: c)
  case Nil
  then show ?case by simp
next
  case (Cons x es)
  obtain now y where x: "x = (now, y)" by (cases x)
  from Cons.prems have "e \<in> set (snd (updateOne_upsert (toUpdateOneOperation now y) c))"
    by (simp add: x updateOne_upsert_keeps)
  from Cons.IH[OF this] Cons.prems(2) show ?case
    unfolding x list.map prod.case applyUnordered_Cons_snd by simp
qed

lemma not_filter_leased:
  "indexJob e = Some job \<Longrightarrow> indexJobTimeout e = Some x \<Longrightarrow> ts < x \<Longrightarrow> \<not> getIndexJob_filter ts e"
  by (simp add: getIndexJob_filter_def)

lemma perform_keeps:
  assumes "e \<in> set c" and "indexJob e = Some job" and "indexJobTimeout e = Some x"
    and "keeps_lease job (entryId e) x call"
  shows "e \<in> set (perform call c)"
proof (cases call)
  case (Save now y)
  with assms show ?thesis by (simp add: save_def updateOne_upsert_keeps)
next
  case (SaveMany es)
  with assms(4) have "list_all (\<lambda>(now, y). entryId y \<noteq> entryId e) es" by simp
  with assms(1) SaveMany show ?thesis by (simp add: saveMany_snd applyUnordered_keeps)
next
  case (GetIndexJob count timeout job' ts)
  with assms show ?thesis
    by (simp add: getIndexJob_snd after_operations_keeps not_filter_leased)
next
  case (SetIndexJobFinished job')
  with assms show ?thesis by (simp add: setIndexJobFinished_def updateMany_keeps)
qed

lemma perform_all_keeps:
  assumes "indexJob e = Some job" and "indexJobTimeout e = Some x"
  shows "e \<in> set c \<Longrightarrow> list_all (keeps_lease job (entryId e) x) calls \<Longrightarrow>
     e \<in> set (perform_all calls c)"
  unfolding perform_all_def
  by (induction calls arbitrary: c) (simp_all add: perform_keeps[OF _ assms])

lemma distinct_updateOne_upsert:
  "distinct (map entryId c) \<Longrightarrow>
     distinct (map entryId (snd (updateOne_upsert (toUpdateOneOperation now x) c)))"
  by (auto simp: updateOne_upsert_toUpdateOneOperation updateOne_map_cong entryId_apply_update
      upsert_document_toUpdateOneOperation list_ex_iff)

lemma distinct_applyUnordered:
  "distinct (map entryId c) \<Longrightarrow>
     distinct (map entryId
       (snd (applyUnordered (map (\<lambda>(now, entry). toUpdateOneOperation now entry) es) c)))"
proof (induction es arbitrary: c)
  case Nil
  then show ?case by simp
next
  case (Cons x es)
  obtain now y where x: "x = (now, y)" by (cases x)
  from Cons.prems have "distinct (map entryId (snd (updateOne_upsert (toUpdateOneOperation now y) c)))"
    by (rule distinct_updateOne_upsert)
  from Cons.IH[OF this] show ?case
    unfolding x list.map prod.case applyUnordered_Cons_snd by simp
qed

lemma entryId_after_operations:
  "map entryId (after_operations n timeout job ts c) = map entryId c"
  by (rule after_operations_map_cong) (simp add: getIndexJob_update_def)

lemma distinct_perform:
  "distinct (map entryId c) \<Longrightarrow> distinct (map entryId (perform call c))"
proof (cases call)
  case (Save now y)
  then show "distinct (map entryId c) \<Longrightarrow> ?thesis"
    by (simp add: save_def distinct_updateOne_upsert)
next
  case (SaveMany es)
  then show "distinct (map entryId c) \<Longrightarrow> ?thesis"
    by (simp add: saveMany_snd distinct_applyUnordered)
next
  case (GetIndexJob count timeout job ts)
  then show "distinct (map entryId c) \<Longrightarrow> ?thesis"
    by (simp add: getIndexJob_snd entryId_after_operations)
next
  case (SetIndexJobFinished job)
  then show "distinct (map entryId c) \<Longrightarrow> ?thesis"
    by (simp add: setIndexJobFinished_map_cong setIndexJobFinished_update_def)
qed

lemma distinct_perform_all:
  "distinct (map entryId c) \<Longrightarrow> distinct (map entryId (perform_all calls c))"
  unfolding perform_all_def
  by (induction calls arbitrary: c) (simp_all add: distinct_perform)

lemma same_id_same_entry:
  "distinct (map entryId c) \<Longrightarrow> a \<in> set c \<Longrightarrow> b \<in> set c \<Longrightarrow> entryId a = entryId b \<Longrightarrow> a = b"
  by (meson distinct_map inj_onD)

lemma leased_not_returned:
  assumes ids: "distinct (map entryId c)"
    and e: "e \<in> set c" "indexJob e = Some job" "indexJobTimeout e = Some x"
    and early: "ts < x" and other: "job' \<noteq> job"
    and call: "getIndexJob count timeout job' ts c = (Inr r, c')"
    and ret: "e' \<in> set (entries r)"
  shows "entryId e' \<noteq> entryId e"
proof
  assume same: "entryId e' = entryId e"
  from getIndexJob_Inr[OF call] have c': "c' = after_operations count timeout job' ts c"
    and r: "entries r = filter (\<lambda>d. indexJob d = Some job') c'" by simp_all
  have "e \<in> set c'"
    unfolding c' using e early by (simp add: after_operations_keeps not_filter_leased)
  moreover from ret have "e' \<in> set c'" "indexJob e' = Some job'" by (simp_all add: r)
  moreover have "distinct (map entryId c')" using ids by (simp add: c' entryId_after_operations)
  ultimately have "e' = e" using same by (meson same_id_same_entry)
  with \<open>indexJob e' = Some job'\<close> e(2) other show False by simp
qed

lemma updateOne_either:
  "e \<in> set c \<Longrightarrow> e \<in> set (updateOne flt upd c) \<or> upd e \<in> set (updateOne flt upd c)"
  by (induction c) auto

lemma after_operations_either:
  "e \<in> set c \<Longrightarrow>
     e \<in> set (after_operations n timeout job ts c) \<or>
     getIndexJob_update job ts timeout e \<in> set (after_operations n timeout job ts c)"
proof (induction n)
  case 0
  then show ?case by (simp add: after_operations_0)
next
  case (Suc n)
  have idem: "getIndexJob_update job ts timeout (getIndexJob_update job ts timeout e) =
      getIndexJob_update job ts timeout e"
    by (simp add: getIndexJob_update_def)
  from Suc show ?case
    unfolding after_operations_Suc
    using updateOne_either[of e "after_operations n timeout job ts c"
        "getIndexJob_filter ts" "getIndexJob_update job ts timeout"]
      updateOne_either[of "getIndexJob_update job ts timeout e" "after_operations n timeout job ts c"
        "getIndexJob_filter ts" "getIndexJob_update job ts timeout"]
    by (auto simp: idem)
qed

lemma filter_updateOne_less:
  assumes "\<And>d. \<not> flt (upd d)"
  shows "length (filter flt (updateOne flt upd c)) = length (filter flt c) - 1"
  by (induction c) (auto simp: assms)

lemma not_filter_getIndexJob_update:
  "0 < timeout \<Longrightarrow> \<not> getIndexJob_filter ts (getIndexJob_update job ts timeout d)"
  by (simp add: getIndexJob_filter_def getIndexJob_update_def)

lemma after_operations_matching:
  assumes "0 < timeout"
  shows "length (filter (getIndexJob_filter ts) (after_operations n timeout job ts c)) =
     length (filter (getIndexJob_filter ts) c) - n"
proof (induction n)
  case 0
  then show ?case by (simp add: after_operations_0)
next
  case (Suc n)
  show ?case
    unfolding after_operations_Suc
    by (simp add: filter_updateOne_less not_filter_getIndexJob_update[OF assms] Suc.IH)
qed

lemma eligible_returned:
  assumes e: "e \<in> set c" "getIndexJob_filter ts e" and pos: "0 < timeout"
  shows "\<exists>r c'. getIndexJob (length c) timeout job ts c = (Inr r, c') \<and>
     (\<exists>e'\<in>set (entries r). entryId e' = entryId e)"
proof -
  let ?c' = "after_operations (length c) timeout job ts c"
  let ?r = "\<lparr>jobId = job, entries = filter (\<lambda>d. indexJob d = Some job) ?c'\<rparr>"
  let ?e' = "getIndexJob_update job ts timeout e"
  from e(1) have "0 < length c" by (cases c) auto
  then have call: "getIndexJob (length c) timeout job ts c = (Inr ?r, ?c')"
    by (rule getIndexJob_pos)
  have "length (filter (getIndexJob_filter ts) c) \<le> length c" by simp
  then have "filter (getIndexJob_filter ts) ?c' = []"
    using after_operations_matching[OF pos, of ts "length c" job c] by simp
  then have "e \<notin> set ?c'" using e(2) by (auto simp: filter_empty_conv)
  with after_operations_either[OF e(1), of "length c" timeout job ts] have "?e' \<in> set ?c'" by blast
  moreover have "indexJob ?e' = Some job" "entryId ?e' = entryId e"
    by (simp_all add: getIndexJob_update_def)
  ultimately have "?e' \<in> set (entries ?r) \<and> entryId ?e' = entryId e" by simp
  with call show ?thesis by blast
qed

text \<open>
  C2. Let \<^verbatim>\<open>getIndexJob\<close> at time \<open>t\<close> with timeout \<open>timeout\<close> return the entry
  \<open>e\<close> under a new job id, in a collection whose ids are distinct, and let any calls
  follow that neither release that job, nor save the id of \<open>e\<close>, nor claim at or after
  \<open>t + timeout\<close>. Then the collection still holds \<open>e\<close> as it was returned; no
  claim at a time before \<open>t + timeout\<close> under another job id returns an entry with the
  id of \<open>e\<close>; \<open>e\<close> matches the filter of a claim exactly at the times from
  \<open>t + timeout\<close> on; and at every such time a claim with one operation for each
  document and a positive timeout returns the entry with the id of \<open>e\<close>.
\<close>

theorem lease_until_expiry:
  assumes ids: "distinct (map entryId c)"
    and fresh: "\<forall>d\<in>set c. indexJob d \<noteq> Some job"
    and call: "getIndexJob count timeout job t c = (Inr r, c1)"
    and ret: "e \<in> set (entries r)"
    and later: "list_all (keeps_lease job (entryId e) (t + timeout)) calls"
  shows "e \<in> set (perform_all calls c1) \<and>
     (\<forall>count' timeout' job' ts' r' c3.
        ts' < t + timeout \<and> job' \<noteq> job \<and>
        getIndexJob count' timeout' job' ts' (perform_all calls c1) = (Inr r', c3) \<longrightarrow>
        (\<forall>e'\<in>set (entries r'). entryId e' \<noteq> entryId e)) \<and>
     (\<forall>ts'. getIndexJob_filter ts' e \<longleftrightarrow> t + timeout \<le> ts') \<and>
     (\<forall>timeout' job' ts'.
        t + timeout \<le> ts' \<and> 0 < timeout' \<longrightarrow>
        (\<exists>r' c3.
           getIndexJob (length (perform_all calls c1)) timeout' job' ts' (perform_all calls c1) =
             (Inr r', c3) \<and>
           (\<exists>e'\<in>set (entries r'). entryId e' = entryId e)))"
proof -
  let ?c2 = "perform_all calls c1"
  from returned_entry[OF fresh call ret]
  have e1: "e \<in> set c1" and tag: "indexJob e = Some job"
    and tmo: "indexJobTimeout e = Some (t + timeout)" by simp_all
  have req: "indexRequiredSince e \<noteq> None" using fresh call ret by (rule returned_entry_required)
  have c1: "c1 = after_operations count timeout job t c" using getIndexJob_Inr[OF call] by simp
  have ids1: "distinct (map entryId c1)" using ids by (simp add: c1 entryId_after_operations)
  have ids2: "distinct (map entryId ?c2)" using ids1 by (rule distinct_perform_all)
  have e2: "e \<in> set ?c2" using tag tmo e1 later by (rule perform_all_keeps)
  have elig: "getIndexJob_filter ts' e \<longleftrightarrow> t + timeout \<le> ts'" for ts'
    using tag tmo req by (simp add: getIndexJob_filter_def)
  have early: "\<forall>e'\<in>set (entries r'). entryId e' \<noteq> entryId e"
    if "ts' < t + timeout" "job' \<noteq> job"
      "getIndexJob count' timeout' job' ts' ?c2 = (Inr r', c3)"
    for count' timeout' job' ts' r' c3
    using leased_not_returned[OF ids2 e2 tag tmo that] by blast
  have late: "\<exists>r' c3. getIndexJob (length ?c2) timeout' job' ts' ?c2 = (Inr r', c3) \<and>
           (\<exists>e'\<in>set (entries r'). entryId e' = entryId e)"
    if "t + timeout \<le> ts'" "0 < timeout'" for timeout' job' ts'
    using eligible_returned[OF e2 _ that(2)] that(1) elig by blast
  show ?thesis using e2 early elig late by blast
qed

theorem lease_until_expiry_witness:
  "getIndexJob 5 30 ''J1'' 1 [E1_pending] =
     (Inr \<lparr>jobId = ''J1'', entries = [E1_leased]\<rparr>, [E1_leased]) \<and>
   perform_all [GetIndexJob 5 30 ''J2'' 2, Save 3 E2_pending, SetIndexJobFinished ''J0''] [E1_leased] =
     [E1_leased, E2_pending\<lparr>indexRequiredSince := Some 3\<rparr>] \<and>
   getIndexJob 5 30 ''J3'' 30 [E1_leased, E2_pending\<lparr>indexRequiredSince := Some 3\<rparr>] =
     (Inr \<lparr>jobId = ''J3'',
           entries = [E2_pending\<lparr>indexRequiredSince := Some 3, indexJob := Some ''J3'',
                        indexJobTimeout := Some 60\<rparr>]\<rparr>,
      [E1_leased, E2_pending\<lparr>indexRequiredSince := Some 3, indexJob := Some ''J3'',
                        indexJobTimeout := Some 60\<rparr>]) \<and>
   \<not> getIndexJob_filter 30 E1_leased \<and> getIndexJob_filter 31 E1_leased \<and>
   getIndexJob 2 30 ''J4'' 31 [E1_leased, E2_pending\<lparr>indexRequiredSince := Some 3\<rparr>] =
     (Inr \<lparr>jobId = ''J4'',
           entries = [E1_leased\<lparr>indexJob := Some ''J4'', indexJobTimeout := Some 61\<rparr>,
                      E2_pending\<lparr>indexRequiredSince := Some 3, indexJob := Some ''J4'',
                        indexJobTimeout := Some 61\<rparr>]\<rparr>,
      [E1_leased\<lparr>indexJob := Some ''J4'', indexJobTimeout := Some 61\<rparr>,
       E2_pending\<lparr>indexRequiredSince := Some 3, indexJob := Some ''J4'',
                        indexJobTimeout := Some 61\<rparr>])"
proof -
  let ?calls = "[GetIndexJob 5 30 ''J2'' 2, Save 3 E2_pending, SetIndexJobFinished ''J0'']"
  have ids: "distinct (map entryId [E1_pending])" by simp
  have fresh: "\<forall>d\<in>set [E1_pending]. indexJob d \<noteq> Some ''J1''"
    by (simp add: E1_pending_def E1_def)
  have call: "getIndexJob 5 30 ''J1'' 1 [E1_pending] =
     (Inr \<lparr>jobId = ''J1'', entries = [E1_leased]\<rparr>, [E1_leased])"
    by (simp add: getIndexJob_def bulkWrite_def loadManyByFilter_def eval_nat_numeral
        getIndexJob_filter_def getIndexJob_update_def E1_pending_def E1_leased_def E1_def)
  have ret: "E1_leased \<in> set (entries \<lparr>jobId = ''J1'', entries = [E1_leased]\<rparr>)" by simp
  have later: "list_all (keeps_lease ''J1'' (entryId E1_leased) (1 + 30)) ?calls"
    by (simp add: E1_leased_def E1_def E2_pending_def)
  have run: "perform_all ?calls [E1_leased] = [E1_leased, E2_pending\<lparr>indexRequiredSince := Some 3\<rparr>]"
    by (simp add: perform_all_def getIndexJob_def bulkWrite_def eval_nat_numeral
        getIndexJob_filter_def getIndexJob_update_def save_eq
        upsert_document_toUpdateOneOperation setIndexJobFinished_def updateMany_def
        E1_leased_def E1_def E2_pending_def)
  from lease_until_expiry[OF ids fresh call ret later] show ?thesis
    using call run
    by (simp add: getIndexJob_def bulkWrite_def loadManyByFilter_def eval_nat_numeral
        getIndexJob_filter_def getIndexJob_update_def E1_leased_def E1_def E2_pending_def)
qed

subsection \<open>Two claims at once\<close>

text \<open>A call that runs alone, step by step, is \<^verbatim>\<open>getIndexJob\<close>.\<close>

lemma alone_writing:
  "interleave a b (replicate n True) (Writing (n + k), pb, c) =
     (Writing k, pb,
      after_operations n (call_timeout a) (call_job a) (call_timestamp a) c)"
proof (induction n arbitrary: c)
  case 0
  then show ?case by (simp add: after_operations_0)
next
  case (Suc n)
  have "after_operations (Suc n) (call_timeout a) (call_job a) (call_timestamp a) c =
      after_operations n (call_timeout a) (call_job a) (call_timestamp a)
        (updateOne (getIndexJob_filter (call_timestamp a))
           (getIndexJob_update (call_job a) (call_timestamp a) (call_timeout a)) c)"
    by (simp add: after_operations_def)
  with Suc.IH show ?case by simp
qed

lemma claim_alone:
  "getIndexJob (call_count a) (call_timeout a) (call_job a) (call_timestamp a) c = (Inr r, c') \<Longrightarrow>
     concurrent_claims a b (replicate (Suc (call_count a)) True) c = (Returned (entries r), begin_claim b, c')"
proof -
  assume call: "getIndexJob (call_count a) (call_timeout a) (call_job a) (call_timestamp a) c = (Inr r, c')"
  from getIndexJob_Inr[OF call] have pos: "0 < call_count a"
    and c': "c' = after_operations (call_count a) (call_timeout a) (call_job a) (call_timestamp a) c"
    and r: "entries r = filter (\<lambda>d. indexJob d = Some (call_job a)) c'" by simp_all
  from pos have start: "begin_claim a = (Writing (call_count a + 0) :: 'a progress)"
    by (cases "call_count a") (simp_all add: begin_claim_def)
  have "replicate (Suc (call_count a)) True = replicate (call_count a) True @ [True]"
    by (simp add: replicate_append_same)
  have step: "interleave a b (xs @ ys) s = interleave a b ys (interleave a b xs s)"
    for xs ys and s :: "'a progress \<times> 'a progress \<times> 'a collection"
    by (induction xs arbitrary: s) (auto split: prod.splits)
  show ?thesis
    unfolding concurrent_claims_def start
      \<open>replicate (Suc (call_count a)) True = replicate (call_count a) True @ [True]\<close> step alone_writing
    by (simp add: c' r loadManyByFilter_def)
qed

lemma set_updateOne:
  "d' \<in> set (updateOne flt upd c) \<Longrightarrow> d' \<in> set c \<or> (\<exists>d\<in>set c. flt d \<and> d' = upd d)"
  by (induction c) (auto split: if_splits)

lemma claim_step_ids:
  "claim_step x p c = (p', c') \<Longrightarrow> map entryId c' = map entryId c"
  by (cases "(x, p, c)" rule: claim_step.cases)
     (auto simp: updateOne_map_cong getIndexJob_update_def)

lemma claim_step_own:
  assumes step: "claim_step x p c = (p', c')"
    and own: "tagged_with_timeout x c" "holds_returned x p c"
  shows "tagged_with_timeout x c' \<and> holds_returned x p' c'"
proof (cases "(x, p, c)" rule: claim_step.cases)
  case (1 call n c0)
  with step have p': "p' = Writing n"
    and c': "c' = updateOne (getIndexJob_filter (call_timestamp x))
        (getIndexJob_update (call_job x) (call_timestamp x) (call_timeout x)) c" by simp_all
  have "tagged_with_timeout x c'"
    unfolding tagged_with_timeout_def c'
  proof (intro ballI impI)
    fix d' assume "d' \<in> set (updateOne (getIndexJob_filter (call_timestamp x))
        (getIndexJob_update (call_job x) (call_timestamp x) (call_timeout x)) c)"
      and tag: "indexJob d' = Some (call_job x)"
    from set_updateOne[OF this(1)] show "indexJobTimeout d' = Some (call_timestamp x + call_timeout x)"
      using own(1) tag by (auto simp: tagged_with_timeout_def getIndexJob_update_def)
  qed
  then show ?thesis by (simp add: p' holds_returned_def)
next
  case (2 call c0)
  with step own show ?thesis by (auto simp: holds_returned_def loadManyByFilter_def)
next
  case (3 call r c0)
  with step own show ?thesis by auto
next
  case (4 call e c0)
  with step own show ?thesis by auto
qed

lemma claim_step_other:
  assumes step: "claim_step x p c = (p', c')"
    and other: "tagged_with_timeout y c" "holds_returned y q c"
    and jobs: "call_job x \<noteq> call_job y"
    and lease: "call_timestamp x < call_timestamp y + call_timeout y"
  shows "tagged_with_timeout y c' \<and> holds_returned y q c'"
proof (cases "(x, p, c)" rule: claim_step.cases)
  case (1 call n c0)
  with step have c': "c' = updateOne (getIndexJob_filter (call_timestamp x))
        (getIndexJob_update (call_job x) (call_timestamp x) (call_timeout x)) c" by simp
  have "tagged_with_timeout y c'"
    unfolding tagged_with_timeout_def c'
  proof (intro ballI impI)
    fix d' assume "d' \<in> set (updateOne (getIndexJob_filter (call_timestamp x))
        (getIndexJob_update (call_job x) (call_timestamp x) (call_timeout x)) c)"
      and tag: "indexJob d' = Some (call_job y)"
    from set_updateOne[OF this(1)] show "indexJobTimeout d' = Some (call_timestamp y + call_timeout y)"
      using other(1) tag jobs by (auto simp: tagged_with_timeout_def getIndexJob_update_def)
  qed
  moreover have "holds_returned y q c'"
    unfolding holds_returned_def c'
  proof (intro allI impI ballI conjI)
    fix r e assume q: "q = Returned r" and e: "e \<in> set r"
    from other(2) q e have mem: "e \<in> set c" and tag: "indexJob e = Some (call_job y)"
      by (auto simp: holds_returned_def)
    from other(1) mem tag have "indexJobTimeout e = Some (call_timestamp y + call_timeout y)"
      by (auto simp: tagged_with_timeout_def)
    with tag lease have "\<not> getIndexJob_filter (call_timestamp x) e"
      by (simp add: not_filter_leased)
    with mem show "e \<in> set (updateOne (getIndexJob_filter (call_timestamp x))
        (getIndexJob_update (call_job x) (call_timestamp x) (call_timeout x)) c)"
      by (rule updateOne_keeps)
    show "indexJob e = Some (call_job y)" by (rule tag)
  qed
  ultimately show ?thesis by simp
next
  case (2 call c0)
  with step other show ?thesis by auto
next
  case (3 call r c0)
  with step other show ?thesis by auto
next
  case (4 call e c0)
  with step other show ?thesis by auto
qed

lemma interleave_invariant:
  assumes jobs: "call_job a \<noteq> call_job b"
    and lease_a: "call_timestamp b < call_timestamp a + call_timeout a"
    and lease_b: "call_timestamp a < call_timestamp b + call_timeout b"
  shows "interleave a b schedule (pa, pb, c) = (pa', pb', c') \<Longrightarrow>
     tagged_with_timeout a c \<Longrightarrow> holds_returned a pa c \<Longrightarrow>
     tagged_with_timeout b c \<Longrightarrow> holds_returned b pb c \<Longrightarrow>
     map entryId c' = map entryId c \<and>
     tagged_with_timeout a c' \<and> holds_returned a pa' c' \<and>
     tagged_with_timeout b c' \<and> holds_returned b pb' c'"
proof (induction schedule arbitrary: pa pb c)
  case Nil
  then show ?case by simp
next
  case (Cons first schedule)
  show ?case
  proof (cases first)
    case True
    obtain pa1 c1 where step: "claim_step a pa c = (pa1, c1)" by (cases "claim_step a pa c")
    with Cons.prems(1) True have run: "interleave a b schedule (pa1, pb, c1) = (pa', pb', c')"
      by simp
    from claim_step_own[OF step Cons.prems(2,3)]
      claim_step_other[OF step Cons.prems(4,5) jobs lease_b]
      Cons.IH[OF run] claim_step_ids[OF step]
    show ?thesis by simp
  next
    case False
    obtain pb1 c1 where step: "claim_step b pb c = (pb1, c1)" by (cases "claim_step b pb c")
    with Cons.prems(1) False have run: "interleave a b schedule (pa, pb1, c1) = (pa', pb', c')"
      by simp
    from claim_step_own[OF step Cons.prems(4,5)]
      claim_step_other[OF step Cons.prems(2,3) jobs[symmetric] lease_a]
      Cons.IH[OF run] claim_step_ids[OF step]
    show ?thesis by simp
  qed
qed

text \<open>
  C9, as stated, fails: the calls \<open>JA\<close> and \<open>JB\<close> read the same clock, \<open>JA\<close> with a
  lease of 0. \<open>JB\<close> claims \<open>E1\<close>, then \<open>JA\<close> claims \<open>E2\<close> and returns it, then
  \<open>JB\<close> claims \<open>E2\<close> as well, since the lease of \<open>JA\<close> is over at once, and returns
  both: \<open>E2\<close> is returned to both jobs while the lease of \<open>JB\<close> runs.
\<close>

theorem concurrent_claims_overlap_counterexample:
  "concurrent_claims
     \<lparr>call_count = 1, call_timeout = 0, call_job = ''JA'', call_timestamp = 5\<rparr>
     \<lparr>call_count = 2, call_timeout = 30, call_job = ''JB'', call_timestamp = 5\<rparr>
     [False, True, True, False, False] [E1_pending, E2_pending] =
     (Returned [E2_pending\<lparr>indexJob := Some ''JA'', indexJobTimeout := Some 5\<rparr>],
      Returned [E1_pending\<lparr>indexJob := Some ''JB'', indexJobTimeout := Some 35\<rparr>,
                E2_pending\<lparr>indexJob := Some ''JB'', indexJobTimeout := Some 35\<rparr>],
      [E1_pending\<lparr>indexJob := Some ''JB'', indexJobTimeout := Some 35\<rparr>,
       E2_pending\<lparr>indexJob := Some ''JB'', indexJobTimeout := Some 35\<rparr>]) \<and>
   entryId (E2_pending\<lparr>indexJob := Some ''JA'', indexJobTimeout := Some 5\<rparr>) =
   entryId (E2_pending\<lparr>indexJob := Some ''JB'', indexJobTimeout := Some 35\<rparr>) \<and>
   (5::int) < 35"
  by (simp add: concurrent_claims_def begin_claim_def loadManyByFilter_def eval_nat_numeral
      getIndexJob_filter_def getIndexJob_update_def E1_pending_def E2_pending_def E1_def)

text \<open>
  C9, amended. Let two calls of \<^verbatim>\<open>getIndexJob\<close> run at the same time, under different
  job ids that tag no stored entry, on a collection with distinct ids, and let the lease
  of each still run at the timestamp of the other. Then in every interleaving of their
  steps, once both have returned, no id is among the entries of both, and every entry
  either has returned is in the collection under its job.
\<close>

theorem concurrent_claims_disjoint:
  assumes ids: "distinct (map entryId c)"
    and fresh_a: "\<forall>d\<in>set c. indexJob d \<noteq> Some (call_job a)"
    and fresh_b: "\<forall>d\<in>set c. indexJob d \<noteq> Some (call_job b)"
    and jobs: "call_job a \<noteq> call_job b"
    and lease_a: "call_timestamp b < call_timestamp a + call_timeout a"
    and lease_b: "call_timestamp a < call_timestamp b + call_timeout b"
    and run: "concurrent_claims a b schedule c = (Returned ra, Returned rb, c')"
  shows "(\<forall>x\<in>set ra. \<forall>y\<in>set rb. entryId x \<noteq> entryId y) \<and>
     (\<forall>x\<in>set ra. x \<in> set c' \<and> indexJob x = Some (call_job a)) \<and>
     (\<forall>y\<in>set rb. y \<in> set c' \<and> indexJob y = Some (call_job b))"
proof -
  have start_a: "holds_returned a (begin_claim a) c" and start_b: "holds_returned b (begin_claim b) c"
    by (auto simp: holds_returned_def begin_claim_def split: nat.splits)
  have tag_a: "tagged_with_timeout a c" and tag_b: "tagged_with_timeout b c"
    using fresh_a fresh_b by (simp_all add: tagged_with_timeout_def)
  from interleave_invariant[OF jobs lease_a lease_b run[unfolded concurrent_claims_def]
      tag_a start_a tag_b start_b]
  have same: "map entryId c' = map entryId c"
    and ha: "\<forall>x\<in>set ra. x \<in> set c' \<and> indexJob x = Some (call_job a)"
    and hb: "\<forall>y\<in>set rb. y \<in> set c' \<and> indexJob y = Some (call_job b)"
    by (simp_all add: holds_returned_def)
  from ids same have ids': "distinct (map entryId c')" by simp
  have "entryId x \<noteq> entryId y" if "x \<in> set ra" "y \<in> set rb" for x y
  proof
    assume "entryId x = entryId y"
    with ha hb that ids' have "x = y" by (meson same_id_same_entry)
    with ha hb that jobs show False by auto
  qed
  with ha hb show ?thesis by blast
qed

theorem concurrent_claims_disjoint_witness:
  "concurrent_claims
     \<lparr>call_count = 1, call_timeout = 10, call_job = ''JA'', call_timestamp = 5\<rparr>
     \<lparr>call_count = 2, call_timeout = 10, call_job = ''JB'', call_timestamp = 5\<rparr>
     [False, True, True, False, False] [E1_pending, E2_pending] =
     (Returned [E2_pending\<lparr>indexJob := Some ''JA'', indexJobTimeout := Some 15\<rparr>],
      Returned [E1_pending\<lparr>indexJob := Some ''JB'', indexJobTimeout := Some 15\<rparr>],
      [E1_pending\<lparr>indexJob := Some ''JB'', indexJobTimeout := Some 15\<rparr>,
       E2_pending\<lparr>indexJob := Some ''JA'', indexJobTimeout := Some 15\<rparr>]) \<and>
   entryId (E2_pending\<lparr>indexJob := Some ''JA'', indexJobTimeout := Some 15\<rparr>) \<noteq>
   entryId (E1_pending\<lparr>indexJob := Some ''JB'', indexJobTimeout := Some 15\<rparr>)"
proof -
  let ?a = "\<lparr>call_count = 1, call_timeout = 10, call_job = ''JA'', call_timestamp = 5\<rparr>"
  let ?b = "\<lparr>call_count = 2, call_timeout = 10, call_job = ''JB'', call_timestamp = 5\<rparr>"
  have ids: "distinct (map entryId [E1_pending, E2_pending])"
    by (simp add: E1_pending_def E2_pending_def E1_def)
  have fresh_a: "\<forall>d\<in>set [E1_pending, E2_pending]. indexJob d \<noteq> Some (call_job ?a)"
    and fresh_b: "\<forall>d\<in>set [E1_pending, E2_pending]. indexJob d \<noteq> Some (call_job ?b)"
    by (simp_all add: E1_pending_def E2_pending_def E1_def)
  have jobs: "call_job ?a \<noteq> call_job ?b" by simp
  have lease_a: "call_timestamp ?b < call_timestamp ?a + call_timeout ?a"
    and lease_b: "call_timestamp ?a < call_timestamp ?b + call_timeout ?b" by simp_all
  have run: "concurrent_claims ?a ?b [False, True, True, False, False] [E1_pending, E2_pending] =
     (Returned [E2_pending\<lparr>indexJob := Some ''JA'', indexJobTimeout := Some 15\<rparr>],
      Returned [E1_pending\<lparr>indexJob := Some ''JB'', indexJobTimeout := Some 15\<rparr>],
      [E1_pending\<lparr>indexJob := Some ''JB'', indexJobTimeout := Some 15\<rparr>,
       E2_pending\<lparr>indexJob := Some ''JA'', indexJobTimeout := Some 15\<rparr>])"
    by (simp add: concurrent_claims_def begin_claim_def loadManyByFilter_def eval_nat_numeral
        getIndexJob_filter_def getIndexJob_update_def E1_pending_def E2_pending_def E1_def)
  from concurrent_claims_disjoint[OF ids fresh_a fresh_b jobs lease_a lease_b run] show ?thesis
    using run by simp
qed

subsection \<open>A scenario\<close>

text \<open>
  \<open>E1\<close> is saved at time 0 and requires indexing since then. A claim at time 1 with a
  lease of 30 returns it under \<open>J1\<close>, with timeout 31. A claim at time 2 returns
  nothing. A claim at time 32 returns \<open>E1\<close> again, under \<open>J3\<close>; the release of
  \<open>J1\<close> after that changes nothing.
\<close>

lemma scenario:
  "save 0 E1 [] = (Inr (), [E1_pending]) \<and>
   getIndexJob 5 30 ''J1'' 1 [E1_pending] =
     (Inr \<lparr>jobId = ''J1'', entries = [E1_leased]\<rparr>, [E1_leased]) \<and>
   getIndexJob 5 30 ''J2'' 2 [E1_leased] = (Inr \<lparr>jobId = ''J2'', entries = []\<rparr>, [E1_leased]) \<and>
   getIndexJob 5 30 ''J3'' 32 [E1_leased] =
     (Inr \<lparr>jobId = ''J3'',
           entries = [E1_leased\<lparr>indexJob := Some ''J3'', indexJobTimeout := Some 62\<rparr>]\<rparr>,
      [E1_leased\<lparr>indexJob := Some ''J3'', indexJobTimeout := Some 62\<rparr>]) \<and>
   setIndexJobFinished ''J1'' [E1_leased\<lparr>indexJob := Some ''J3'', indexJobTimeout := Some 62\<rparr>] =
     (Inr (), [E1_leased\<lparr>indexJob := Some ''J3'', indexJobTimeout := Some 62\<rparr>])"
  by (simp add: save_eq upsert_document_toUpdateOneOperation getIndexJob_def bulkWrite_def
      loadManyByFilter_def eval_nat_numeral getIndexJob_filter_def getIndexJob_update_def
      setIndexJobFinished_def updateMany_def E1_pending_def E1_leased_def E1_def)

end
